theory Spec2Isabelle
  imports Complex_Main
begin

section \<open>Data model of \<open>tests/integration/state_utils.py\<close>\<close>

text \<open>
  Every object that reaches \<open>InitialStateHelper\<close> carries the two attributes
  \<open>device_id\<close> and \<open>key\<close>; both the entity descriptions and the state messages
  extend this common part. Python integers are unbounded, hence \<open>int\<close>.
\<close>

record identified =
  device_id :: int
  key :: int

text \<open>
  The class of an entity description. The helper asks one question of it,
  \<open>isinstance(entity, ButtonInfo)\<close>; every other class is kept by its name,
  which the source only prints.
\<close>

datatype entity_class = ButtonInfo | OtherInfo string

record EntityInfo = identified +
  object_id :: string
  info_class :: entity_class

text \<open>A state message: its origin and a payload that the helper never inspects.\<close>

record 'p EntityState = identified +
  payload :: 'p

text \<open>The tuple \<open>(x.device_id, x.key)\<close> that the source builds for entities and states alike.\<close>

abbreviation entity_id :: "'a identified_scheme \<Rightarrow> int \<times> int" where
  "entity_id x \<equiv> (device_id x, key x)"

definition isinstance_ButtonInfo :: "EntityInfo \<Rightarrow> bool" where
  "isinstance_ButtonInfo entity = (info_class entity = ButtonInfo)"

subsection \<open>Exceptions and the completion future\<close>

datatype error = KeyError | RuntimeError | InvalidStateError | TimeoutError | CancelledError

text \<open>
  An \<open>asyncio.Future\<close> is pending, cancelled, or finished with a result. \<open>done()\<close> is
  true of the last two, and \<open>set_result\<close> raises \<open>InvalidStateError\<close> on a future
  that is already done.
\<close>

datatype 'a future = Pending | Cancelled | Finished 'a

definition future_done :: "'a future \<Rightarrow> bool" where
  "future_done f = (f \<noteq> Pending)"

definition set_result :: "'a future \<Rightarrow> 'a \<Rightarrow> error + 'a future" where
  "set_result f v = (if future_done f then Inl InvalidStateError else Inr (Finished v))"

text \<open>
  \<open>asyncio.get_running_loop().create_future()\<close>: a fresh pending future, or
  \<open>RuntimeError\<close> when no event loop is running in the calling thread.
\<close>

definition create_future :: "bool \<Rightarrow> error + 'a future" where
  "create_future loop_running = (if loop_running then Inr Pending else Inl RuntimeError)"

text \<open>
  \<open>asyncio.wait_for(fut, timeout)\<close> as seen by its caller. A finished future gives
  its result at once and a cancelled one raises at once, whatever the deadline. On a
  pending future the caller is suspended; what happens meanwhile is the environment's
  business, given here as \<open>resolved_within\<close>: \<open>resolved_within t = Some v\<close> when the
  future receives the result \<open>v\<close> within \<open>t\<close> seconds, \<open>None\<close> when the deadline
  passes first. A deadline that is not positive expires without suspending.
  Durations are Python floats, read as reals.
\<close>

definition asyncio_wait_for :: "(real \<Rightarrow> 'a option) \<Rightarrow> 'a future \<Rightarrow> real \<Rightarrow> error + 'a" where
  "asyncio_wait_for resolved_within fut timeout =
     (case fut of
        Finished v \<Rightarrow> Inr v
      | Cancelled \<Rightarrow> Inl CancelledError
      | Pending \<Rightarrow>
          if timeout \<le> 0 then Inl TimeoutError
          else (case resolved_within timeout of
                  Some v \<Rightarrow> Inr v
                | None \<Rightarrow> Inl TimeoutError))"

subsection \<open>Dictionary reads\<close>

text \<open>
  \<open>d[k]\<close> raises \<open>KeyError\<close> on a missing key. \<open>getitems d ks\<close> is the list
  comprehension \<open>[d[k] for k in ks]\<close>: it stops at the first missing key.
\<close>

fun getitems :: "('k \<rightharpoonup> 'v) \<Rightarrow> 'k list \<Rightarrow> error + 'v list" where
  "getitems d [] = Inr []"
| "getitems d (k # ks) =
     (case d k of
        None \<Rightarrow> Inl KeyError
      | Some v \<Rightarrow> (case getitems d ks of Inl e \<Rightarrow> Inl e | Inr vs \<Rightarrow> Inr (v # vs)))"

section \<open>\<open>InitialStateHelper\<close>\<close>

text \<open>
  The attributes of the helper, with the source's names (the leading underscore of the
  private ones dropped).
\<close>

record 'p InitialStateHelper =
  wait_initial_states :: "(int \<times> int) set"
  entities_by_id :: "int \<times> int \<rightharpoonup> EntityInfo"
  initial_states :: "int \<rightharpoonup> 'p EntityState"
  initial_states_received :: "bool future"

text \<open>
  The elements of the set comprehension
  \<open>{(entity.device_id, entity.key) for entity in entities if not isinstance(entity, ButtonInfo)}\<close>,
  in list order; the set itself is \<open>set (stateful_ids entities)\<close>.
\<close>

definition stateful_ids :: "EntityInfo list \<Rightarrow> (int \<times> int) list" where
  "stateful_ids entities =
     [entity_id entity. entity \<leftarrow> entities, \<not> isinstance_ButtonInfo entity]"

text \<open>
  The constructor. The set comprehension keeps the entities that are not buttons; the
  dict comprehension writes the entities in list order, so a later entity replaces an
  earlier one with the same tuple. The arguments of the three debug messages are
  evaluated before logging, and two of them read \<open>_entities_by_id[k]\<close>: once for every
  tuple waited for and once for every tuple not waited for. The messages themselves are
  dropped. The future is created last and is resolved on the spot when nothing is
  waited for.
\<close>

definition InitialStateHelper_init :: "bool \<Rightarrow> EntityInfo list \<Rightarrow> error + 'p InitialStateHelper" where
  "InitialStateHelper_init loop_running entities =
     (let waiting = stateful_ids entities;
          by_id = foldl (\<lambda>d entity. d(entity_id entity \<mapsto> entity)) Map.empty entities;
          not_waiting = [k \<leftarrow> map entity_id entities. k \<notin> set waiting]
      in case getitems by_id waiting of
           Inl e \<Rightarrow> Inl e
         | Inr _ \<Rightarrow>
        (case getitems by_id not_waiting of
           Inl e \<Rightarrow> Inl e
         | Inr _ \<Rightarrow>
        (case create_future loop_running of
           Inl e \<Rightarrow> Inl e
         | Inr fut \<Rightarrow>
             if set waiting = {}
             then (case set_result fut True of
                     Inl e \<Rightarrow> Inl e
                   | Inr fut' \<Rightarrow>
                       Inr \<lparr>wait_initial_states = set waiting, entities_by_id = by_id,
                            initial_states = Map.empty, initial_states_received = fut'\<rparr>)
             else Inr \<lparr>wait_initial_states = set waiting, entities_by_id = by_id,
                       initial_states = Map.empty, initial_states_received = fut\<rparr>)))"

text \<open>
  \<open>on_state_wrapper(user_callback)\<close> returns the closure \<open>wrapper\<close>. The closure
  mutates the helper and may call the user's callback, so it is a function on the pair
  of the helper and the state \<open>'u\<close> that the callback works on. A state whose tuple is
  waited for is stored under its key, its tuple is discarded from the waiting set, and
  the future is resolved when the set has become empty and the future is not done; the
  callback is not called. Any other state goes to the callback. The debug messages read
  \<open>_entities_by_id\<close> only behind a membership test and cannot raise. The callback is
  the user's code and is taken to return; the one raise in the wrapper's own body is
  \<open>set_result\<close>.
\<close>

definition on_state_wrapper ::
  "('u \<Rightarrow> 'p EntityState \<Rightarrow> 'u) \<Rightarrow> 'p InitialStateHelper \<times> 'u \<Rightarrow> 'p EntityState
     \<Rightarrow> error + 'p InitialStateHelper \<times> 'u" where
  "on_state_wrapper user_callback s state =
     (let self = fst s; u = snd s in
      if entity_id state \<in> wait_initial_states self
      then
        (let self1 = self\<lparr>initial_states := (initial_states self)(key state \<mapsto> state)\<rparr>;
             self2 = self1\<lparr>wait_initial_states := wait_initial_states self1 - {entity_id state}\<rparr>
         in if wait_initial_states self2 = {} \<and> \<not> future_done (initial_states_received self2)
            then (case set_result (initial_states_received self2) True of
                    Inl e \<Rightarrow> Inl e
                  | Inr fut \<Rightarrow> Inr (self2\<lparr>initial_states_received := fut\<rparr>, u))
            else Inr (self2, u))
      else Inr (self, user_callback u state))"

text \<open>
  The client calls the subscribed wrapper once per incoming state, in the order of
  arrival; an exception ends the delivery.
\<close>

fun deliver ::
  "('u \<Rightarrow> 'p EntityState \<Rightarrow> 'u) \<Rightarrow> 'p InitialStateHelper \<times> 'u \<Rightarrow> 'p EntityState list
     \<Rightarrow> error + 'p InitialStateHelper \<times> 'u" where
  "deliver user_callback s [] = Inr s"
| "deliver user_callback s (state # states) =
     (case on_state_wrapper user_callback s state of
        Inl e \<Rightarrow> Inl e
      | Inr s' \<Rightarrow> deliver user_callback s' states)"

text \<open>A user callback that records the states it is called with, in order.\<close>

definition record_call :: "'p EntityState list \<Rightarrow> 'p EntityState \<Rightarrow> 'p EntityState list" where
  "record_call calls state = calls @ [state]"

text \<open>
  \<open>wait_for_initial_states(timeout=5.0)\<close>: the awaited \<open>asyncio.wait_for\<close> on the
  completion future. An omitted argument is \<open>None\<close> here and takes the default. There
  is no handler around the await, and the result of the future is dropped.
\<close>

definition wait_for_initial_states ::
  "(real \<Rightarrow> bool option) \<Rightarrow> 'p InitialStateHelper \<Rightarrow> real option \<Rightarrow> error + unit" where
  "wait_for_initial_states resolved_within self timeout =
     (case asyncio_wait_for resolved_within (initial_states_received self)
             (case timeout of None \<Rightarrow> 5 | Some t \<Rightarrow> t) of
        Inl e \<Rightarrow> Inl e
      | Inr _ \<Rightarrow> Inr ())"

subsection \<open>Sample inventory entries and state messages\<close>

definition sensor :: "int \<Rightarrow> int \<Rightarrow> EntityInfo" where
  "sensor d k =
     \<lparr>device_id = d, key = k, object_id = ''sensor'', info_class = OtherInfo ''SensorInfo''\<rparr>"

definition button :: "int \<Rightarrow> int \<Rightarrow> EntityInfo" where
  "button d k = \<lparr>device_id = d, key = k, object_id = ''button'', info_class = ButtonInfo\<rparr>"

definition state_of :: "int \<Rightarrow> int \<Rightarrow> 'p \<Rightarrow> 'p EntityState" where
  "state_of d k p = \<lparr>device_id = d, key = k, payload = p\<rparr>"

section \<open>Basic facts about the model\<close>

text \<open>Reading keys that are all present never raises.\<close>

lemma getitems_dom: "set ks \<subseteq> dom d \<Longrightarrow> \<exists>vs. getitems d ks = Inr vs"
  by (induction ks) auto

lemma dom_by_id:
  "dom (foldl (\<lambda>d (entity::EntityInfo). d(entity_id entity \<mapsto> entity)) m entities)
     = dom m \<union> set (map entity_id entities)"
  by (induction entities arbitrary: m) auto

lemma set_stateful_ids:
  "set (stateful_ids entities) = entity_id ` {e \<in> set entities. \<not> isinstance_ButtonInfo e}"
  by (auto simp: stateful_ids_def)

lemma stateful_ids_subset: "set (stateful_ids entities) \<subseteq> set (map entity_id entities)"
  by (auto simp: stateful_ids_def)

text \<open>
  Inside a running event loop the constructor returns, and this is the helper it
  returns: none of the dictionary reads for the debug messages can miss.
\<close>

lemma init_running:
  "InitialStateHelper_init True entities =
     Inr \<lparr>wait_initial_states = set (stateful_ids entities),
          entities_by_id = foldl (\<lambda>d entity. d(entity_id entity \<mapsto> entity)) Map.empty entities,
          initial_states = Map.empty,
          initial_states_received =
            (if set (stateful_ids entities) = {} then Finished True else Pending)\<rparr>"
proof -
  let ?waiting = "stateful_ids entities"
  let ?by_id = "foldl (\<lambda>d (entity::EntityInfo). d(entity_id entity \<mapsto> entity)) Map.empty entities"
  have d: "dom ?by_id = set (map entity_id entities)"
    by (simp add: dom_by_id)
  have "set ?waiting \<subseteq> dom ?by_id"
    unfolding d by (rule stateful_ids_subset)
  then obtain vs where 1: "getitems ?by_id ?waiting = Inr vs"
    using getitems_dom by blast
  have "set [k \<leftarrow> map entity_id entities. k \<notin> set ?waiting] \<subseteq> dom ?by_id"
    unfolding d by auto
  then obtain ws where 2: "getitems ?by_id [k \<leftarrow> map entity_id entities. k \<notin> set ?waiting] = Inr ws"
    using getitems_dom by blast
  show ?thesis
    unfolding InitialStateHelper_init_def Let_def 1 2
    by (simp add: create_future_def set_result_def future_done_def)
qed

lemma wrapper_swallow:
  "entity_id state \<in> wait_initial_states self \<Longrightarrow>
   on_state_wrapper cb (self, u) state =
     Inr (self\<lparr>initial_states := (initial_states self)(key state \<mapsto> state),
               wait_initial_states := wait_initial_states self - {entity_id state},
               initial_states_received :=
                 (if wait_initial_states self - {entity_id state} = {} \<and> initial_states_received self = Pending
                  then Finished True else initial_states_received self)\<rparr>, u)"
  by (simp add: on_state_wrapper_def Let_def set_result_def future_done_def)

lemma wrapper_forward:
  "entity_id state \<notin> wait_initial_states self \<Longrightarrow>
   on_state_wrapper cb (self, u) state = Inr (self, cb u state)"
  by (simp add: on_state_wrapper_def Let_def)

lemma wrapper_total: "\<exists>s'. on_state_wrapper cb s state = Inr s'"
  by (cases s, cases "entity_id state \<in> wait_initial_states (fst s)")
     (simp_all add: wrapper_swallow wrapper_forward)

lemma deliver_all_pending:
  "distinct (map entity_id events) \<Longrightarrow>
   set (map entity_id events) = wait_initial_states self \<Longrightarrow>
   initial_states_received self = (if wait_initial_states self = {} then Finished True else Pending) \<Longrightarrow>
   \<exists>h. deliver cb (self, u) events = Inr (h, u) \<and> wait_initial_states h = {}
        \<and> initial_states_received h = Finished True"
proof (induction events arbitrary: self)
  case Nil
  then show ?case by simp
next
  case (Cons e es)
  let ?self' = "self\<lparr>initial_states := (initial_states self)(key e \<mapsto> e),
               wait_initial_states := wait_initial_states self - {entity_id e},
               initial_states_received :=
                 (if wait_initial_states self - {entity_id e} = {} \<and> initial_states_received self = Pending
                  then Finished True else initial_states_received self)\<rparr>"
  from Cons.prems have mem: "entity_id e \<in> wait_initial_states self" by auto
  then have step: "on_state_wrapper cb (self, u) e = Inr (?self', u)"
    by (rule wrapper_swallow)
  from Cons.prems have d: "distinct (map entity_id es)" by simp
  from Cons.prems have ne: "entity_id e \<notin> set (map entity_id es)" by simp
  from Cons.prems have "insert (entity_id e) (set (map entity_id es)) = wait_initial_states self"
    by simp
  with ne have "set (map entity_id es) = wait_initial_states self - {entity_id e}"
    by blast
  then have s: "set (map entity_id es) = wait_initial_states ?self'" by simp
  from Cons.prems(3) mem have f: "initial_states_received ?self' =
      (if wait_initial_states ?self' = {} then Finished True else Pending)"
    by auto
  from Cons.IH [OF d s f] show ?case
    by (simp add: step)
qed

text \<open>Delivery of a list of states, one more state at the end.\<close>

lemma deliver_snoc:
  "deliver cb s (states @ [state]) =
     (case deliver cb s states of Inl e \<Rightarrow> Inl e | Inr s' \<Rightarrow> on_state_wrapper cb s' state)"
  by (induction states arbitrary: s) (auto split: sum.splits)

text \<open>The waiting set after one call and after a whole delivery; no call raises.\<close>

lemma wrapper_waiting:
  "on_state_wrapper cb (self, u) state = Inr (self', u') \<Longrightarrow>
   wait_initial_states self' = wait_initial_states self - {entity_id state}"
  by (cases "entity_id state \<in> wait_initial_states self")
     (auto simp: wrapper_swallow wrapper_forward)

lemma deliver_total: "\<exists>s'. deliver cb s states = Inr s'"
proof (induction states arbitrary: s)
  case Nil
  show ?case by simp
next
  case (Cons state states)
  from wrapper_total obtain s1 where "on_state_wrapper cb s state = Inr s1" by blast
  with Cons.IH [of s1] show ?case by simp
qed

lemma deliver_waiting:
  "deliver cb (self, u) states = Inr (self', u') \<Longrightarrow>
   wait_initial_states self' = wait_initial_states self - set (map entity_id states)"
proof (induction states arbitrary: self u)
  case Nil
  then show ?case by simp
next
  case (Cons state states)
  from wrapper_total obtain self1 u1 where
    1: "on_state_wrapper cb (self, u) state = Inr (self1, u1)" by (metis surj_pair)
  with Cons.prems have "deliver cb (self1, u1) states = Inr (self', u')" by simp
  from Cons.IH [OF this] wrapper_waiting [OF 1] show ?case by auto
qed

text \<open>A future that is done is left alone.\<close>

lemma wrapper_future_done:
  "future_done (initial_states_received self) \<Longrightarrow>
   on_state_wrapper cb (self, u) state = Inr (self', u') \<Longrightarrow>
   initial_states_received self' = initial_states_received self"
  by (cases "entity_id state \<in> wait_initial_states self")
     (auto simp: wrapper_swallow wrapper_forward future_done_def)

lemma deliver_future_done:
  "future_done (initial_states_received self) \<Longrightarrow>
   deliver cb (self, u) states = Inr (self', u') \<Longrightarrow>
   initial_states_received self' = initial_states_received self"
proof (induction states arbitrary: self u)
  case Nil
  then show ?case by simp
next
  case (Cons state states)
  from wrapper_total obtain self1 u1 where
    1: "on_state_wrapper cb (self, u) state = Inr (self1, u1)" by (metis surj_pair)
  have 2: "initial_states_received self1 = initial_states_received self"
    using Cons.prems(1) 1 by (rule wrapper_future_done)
  from 1 Cons.prems have "deliver cb (self1, u1) states = Inr (self', u')" by simp
  with Cons.IH [of self1 u1] 2 Cons.prems(1) show ?case by simp
qed

text \<open>While identities are still waited for, the future is left alone.\<close>

lemma wrapper_future_waiting:
  "on_state_wrapper cb (self, u) state = Inr (self', u') \<Longrightarrow>
   wait_initial_states self' \<noteq> {} \<Longrightarrow>
   initial_states_received self' = initial_states_received self"
proof (cases "entity_id state \<in> wait_initial_states self")
  case True
  assume 1: "on_state_wrapper cb (self, u) state = Inr (self', u')"
    and 2: "wait_initial_states self' \<noteq> {}"
  from wrapper_waiting [OF 1] 2 have "wait_initial_states self - {entity_id state} \<noteq> {}"
    by simp
  with 1 True show ?thesis
    by (auto simp: wrapper_swallow)
next
  case False
  assume "on_state_wrapper cb (self, u) state = Inr (self', u')"
  with False show ?thesis
    by (simp add: wrapper_forward)
qed

lemma deliver_future_waiting:
  "deliver cb (self, u) states = Inr (self', u') \<Longrightarrow>
   wait_initial_states self' \<noteq> {} \<Longrightarrow>
   initial_states_received self' = initial_states_received self"
proof (induction states arbitrary: self u)
  case Nil
  then show ?case by simp
next
  case (Cons state states)
  from wrapper_total obtain self1 u1 where
    1: "on_state_wrapper cb (self, u) state = Inr (self1, u1)" by (metis surj_pair)
  with Cons.prems have 2: "deliver cb (self1, u1) states = Inr (self', u')" by simp
  from deliver_waiting [OF 2] Cons.prems(2) have "wait_initial_states self1 \<noteq> {}" by blast
  from wrapper_future_waiting [OF 1 this] Cons.IH [OF 2 Cons.prems(2)]
  show ?case by simp
qed

text \<open>The entity map: a tuple that no later entity carries keeps its entry.\<close>

lemma by_id_other:
  "k \<notin> set (map entity_id entities) \<Longrightarrow>
   foldl (\<lambda>d (entity::EntityInfo). d(entity_id entity \<mapsto> entity)) m entities k = m k"
  by (induction entities arbitrary: m) auto

lemma stateful_ids_append:
  "stateful_ids (xs @ ys) = stateful_ids xs @ stateful_ids ys"
  by (simp add: stateful_ids_def)

lemma stateful_ids_Cons:
  "stateful_ids (x # xs) = (if isinstance_ButtonInfo x then [] else [entity_id x]) @ stateful_ids xs"
  by (simp add: stateful_ids_def)

text \<open>
  The stored initial states: one call writes at most the key of its state, and after a
  delivery every identity that has left the waiting set has a delivered state with its
  key stored under that key.
\<close>

lemma wrapper_initial_states:
  "on_state_wrapper cb (self, u) state = Inr (self', u') \<Longrightarrow>
   initial_states self' =
     (if entity_id state \<in> wait_initial_states self
      then (initial_states self)(key state \<mapsto> state) else initial_states self)"
  by (cases "entity_id state \<in> wait_initial_states self")
     (auto simp: wrapper_swallow wrapper_forward)

lemma deliver_initial_states:
  "deliver cb (self, u) states = Inr (self', u') \<Longrightarrow>
   initial_states self' k = initial_states self k
   \<or> (\<exists>st \<in> set states. initial_states self' k = Some st \<and> key st = k)"
proof (induction states arbitrary: self u)
  case Nil
  then show ?case by simp
next
  case (Cons state states)
  from wrapper_total obtain self1 u1 where
    1: "on_state_wrapper cb (self, u) state = Inr (self1, u1)" by (metis surj_pair)
  with Cons.prems have 2: "deliver cb (self1, u1) states = Inr (self', u')" by simp
  from wrapper_initial_states [OF 1]
  have 3: "initial_states self1 k = initial_states self k
           \<or> (initial_states self1 k = Some state \<and> key state = k)"
    by (auto split: if_splits)
  from Cons.IH [OF 2] 3 show ?case by auto
qed

lemma deliver_coverage:
  "deliver cb (self, u) states = Inr (self', u') \<Longrightarrow>
   (d, k) \<in> wait_initial_states self \<Longrightarrow> (d, k) \<notin> wait_initial_states self' \<Longrightarrow>
   \<exists>st \<in> set states. initial_states self' k = Some st \<and> key st = k"
proof (induction states arbitrary: self u)
  case Nil
  then show ?case by simp
next
  case (Cons state states)
  from wrapper_total obtain self1 u1 where
    1: "on_state_wrapper cb (self, u) state = Inr (self1, u1)" by (metis surj_pair)
  with Cons.prems have 2: "deliver cb (self1, u1) states = Inr (self', u')" by simp
  show ?case
  proof (cases "(d, k) \<in> wait_initial_states self1")
    case True
    from Cons.IH [OF 2 True Cons.prems(3)] show ?thesis by auto
  next
    case False
    with wrapper_waiting [OF 1] Cons.prems(2) have id: "entity_id state = (d, k)" by auto
    with Cons.prems(2) wrapper_initial_states [OF 1]
    have "initial_states self1 k = Some state" and ks: "key state = k" by auto
    with deliver_initial_states [OF 2, of k]
    show ?thesis by auto
  qed
qed

section \<open>The claims\<close>

text \<open>
  C1. Take any inventory and construct the helper in a running loop. Deliver, in any
  order, exactly one state per stateful (non-button) identity of the inventory: the
  identities of the delivered states are pairwise distinct and together make up the set
  the helper waits for. Then no call raises, the waiting set ends empty, the completion
  future ends resolved, and the user callback is never called: its state \<open>u\<close> comes
  back untouched, whatever the callback is.
\<close>

theorem one_event_per_identity_completes:
  fixes events :: "'p EntityState list"
  assumes "distinct (map entity_id events)"
    and "set (map entity_id events) = set (stateful_ids entities)"
  shows "\<exists>h0 h. InitialStateHelper_init True entities = Inr h0
           \<and> wait_initial_states h0 = set (map entity_id events)
           \<and> deliver user_callback (h0, u) events = Inr (h, u)
           \<and> wait_initial_states h = {}
           \<and> initial_states_received h = Finished True"
proof -
  let ?E = "set (stateful_ids entities)"
  let ?h0 = "\<lparr>wait_initial_states = ?E,
          entities_by_id = foldl (\<lambda>d entity. d(entity_id entity \<mapsto> entity)) Map.empty entities,
          initial_states = Map.empty,
          initial_states_received = (if ?E = {} then Finished True else Pending)\<rparr>
            :: 'p InitialStateHelper"
  have i: "InitialStateHelper_init True entities = Inr ?h0"
    by (rule init_running)
  have s: "set (map entity_id events) = wait_initial_states ?h0"
    using assms(2) by simp
  have f: "initial_states_received ?h0 = (if wait_initial_states ?h0 = {} then Finished True else Pending)"
    by simp
  from deliver_all_pending [OF assms(1) s f, of user_callback u] i s
  show ?thesis by blast
qed

theorem one_event_per_identity_completes_witness:
  "distinct (map entity_id [state_of 1 11 ''on'', state_of 1 10 ''off''])
   \<and> set (map entity_id [state_of 1 11 ''on'', state_of 1 10 ''off''])
       = set (stateful_ids [sensor 1 10, button 1 12, sensor 1 11])
   \<and> (\<exists>h0 h. InitialStateHelper_init True [sensor 1 10, button 1 12, sensor 1 11] = Inr h0
           \<and> wait_initial_states h0 = {(1, 11), (1, 10)}
           \<and> deliver record_call (h0, []) [state_of 1 11 ''on'', state_of 1 10 ''off''] = Inr (h, [])
           \<and> wait_initial_states h = {}
           \<and> initial_states_received h = Finished True)"
proof -
  have d: "distinct (map entity_id [state_of 1 11 ''on'', state_of 1 10 ''off''])"
    by (simp add: state_of_def)
  have s: "set (map entity_id [state_of 1 11 ''on'', state_of 1 10 ''off''])
       = set (stateful_ids [sensor 1 10, button 1 12, sensor 1 11])"
    by (auto simp: state_of_def sensor_def button_def isinstance_ButtonInfo_def stateful_ids_def)
  have m: "set (map entity_id [state_of 1 11 ''on'', state_of 1 10 ''off'']) = {(1, 11), (1, 10)}"
    by (simp add: state_of_def)
  from one_event_per_identity_completes [OF d s, of record_call "[]"] d s
  show ?thesis unfolding m by blast
qed

text \<open>
  C2. The store into \<open>initial_states\<close> is unconditional, so the last write to a key
  wins. A state whose identity is waited for is stored under its key whether or not the
  key has an entry, replacing the entry if there is one; a state whose identity is not
  waited for leaves the helper, and so the map, as it was. When two distinct identities
  that are both waited for share a key (the same key on two devices) and their states
  arrive one after the other, the entry under that key is the later state.
\<close>

theorem initial_states_last_write_wins:
  "(entity_id state \<in> wait_initial_states self \<longrightarrow>
      (\<exists>self'. on_state_wrapper user_callback (self, u) state = Inr (self', u)
         \<and> initial_states self' = (initial_states self)(key state \<mapsto> state)))
   \<and> (entity_id state \<notin> wait_initial_states self \<longrightarrow>
      (\<exists>u'. on_state_wrapper user_callback (self, u) state = Inr (self, u')))
   \<and> (entity_id s1 \<in> wait_initial_states self \<and> entity_id s2 \<in> wait_initial_states self
       \<and> entity_id s1 \<noteq> entity_id s2 \<and> key s1 = key s2 \<longrightarrow>
      (\<exists>self'. deliver user_callback (self, u) [s1, s2] = Inr (self', u)
         \<and> initial_states self' (key s1) = Some s2))"
proof (intro conjI impI)
  assume "entity_id state \<in> wait_initial_states self"
  then show "\<exists>self'. on_state_wrapper user_callback (self, u) state = Inr (self', u)
         \<and> initial_states self' = (initial_states self)(key state \<mapsto> state)"
    by (simp add: wrapper_swallow)
next
  assume "entity_id state \<notin> wait_initial_states self"
  then show "\<exists>u'. on_state_wrapper user_callback (self, u) state = Inr (self, u')"
    by (simp add: wrapper_forward)
next
  assume a: "entity_id s1 \<in> wait_initial_states self \<and> entity_id s2 \<in> wait_initial_states self
       \<and> entity_id s1 \<noteq> entity_id s2 \<and> key s1 = key s2"
  let ?self1 = "self\<lparr>initial_states := (initial_states self)(key s1 \<mapsto> s1),
               wait_initial_states := wait_initial_states self - {entity_id s1},
               initial_states_received :=
                 (if wait_initial_states self - {entity_id s1} = {} \<and> initial_states_received self = Pending
                  then Finished True else initial_states_received self)\<rparr>"
  from a have m1: "entity_id s1 \<in> wait_initial_states self"
    and m2: "entity_id s2 \<in> wait_initial_states self"
    and ne: "entity_id s1 \<noteq> entity_id s2" and k: "key s1 = key s2"
    by blast+
  have 1: "on_state_wrapper user_callback (self, u) s1 = Inr (?self1, u)"
    using m1 by (rule wrapper_swallow)
  from m2 ne have 2: "entity_id s2 \<in> wait_initial_states ?self1" by auto
  have 3: "\<exists>self'. on_state_wrapper user_callback (?self1, u) s2 = Inr (self', u)
             \<and> initial_states self' (key s2) = Some s2"
    unfolding wrapper_swallow [OF 2] by simp
  then obtain self' where w: "on_state_wrapper user_callback (?self1, u) s2 = Inr (self', u)"
    and i: "initial_states self' (key s2) = Some s2"
    by blast
  have d: "deliver user_callback (self, u) [s1, s2] = Inr (self', u)"
    by (simp only: deliver.simps 1 w sum.case)
  from i k have "initial_states self' (key s1) = Some s2" by simp
  with d show "\<exists>self'. deliver user_callback (self, u) [s1, s2] = Inr (self', u)
         \<and> initial_states self' (key s1) = Some s2"
    by blast
qed

theorem initial_states_last_write_wins_witness:
  "entity_id (state_of 1 10 ''first'') \<in> {(1 :: int, 10 :: int), (2, 10)}
   \<and> entity_id (state_of 2 10 ''second'') \<in> {(1 :: int, 10 :: int), (2, 10)}
   \<and> entity_id (state_of 1 10 ''first'') \<noteq> entity_id (state_of 2 10 ''second'')
   \<and> key (state_of 1 10 ''first'') = key (state_of 2 10 ''second'')
   \<and> (\<exists>self'. deliver record_call
          (\<lparr>wait_initial_states = {(1, 10), (2, 10)},
            entities_by_id = [(1, 10) \<mapsto> sensor 1 10, (2, 10) \<mapsto> sensor 2 10],
            initial_states = Map.empty,
            initial_states_received = Pending\<rparr>, [])
          [state_of 1 10 ''first'', state_of 2 10 ''second''] = Inr (self', [])
        \<and> initial_states self' 10 = Some (state_of 2 10 ''second''))"
proof -
  let ?h = "\<lparr>wait_initial_states = {(1, 10), (2, 10)},
            entities_by_id = [(1, 10) \<mapsto> sensor 1 10, (2, 10) \<mapsto> sensor 2 10],
            initial_states = Map.empty,
            initial_states_received = Pending\<rparr> :: string InitialStateHelper"
  let ?s1 = "state_of 1 10 ''first''"
  let ?s2 = "state_of 2 10 ''second''"
  have m1: "entity_id ?s1 \<in> {(1 :: int, 10 :: int), (2, 10)}" by (simp add: state_of_def)
  have m2: "entity_id ?s2 \<in> {(1 :: int, 10 :: int), (2, 10)}" by (simp add: state_of_def)
  have ne: "entity_id ?s1 \<noteq> entity_id ?s2" by (simp add: state_of_def)
  have k: "key ?s1 = key ?s2" by (simp add: state_of_def)
  have k1: "key ?s1 = 10" by (simp add: state_of_def)
  have pre: "entity_id ?s1 \<in> wait_initial_states ?h \<and> entity_id ?s2 \<in> wait_initial_states ?h
       \<and> entity_id ?s1 \<noteq> entity_id ?s2 \<and> key ?s1 = key ?s2"
    using m1 m2 ne k by simp
  from initial_states_last_write_wins [where self = ?h and user_callback = record_call
      and ?s1.0 = ?s1 and ?s2.0 = ?s2 and u = "[]" and state = ?s1,
      THEN conjunct2, THEN conjunct2, rule_format, OF pre]
  have "\<exists>self'. deliver record_call (?h, []) [?s1, ?s2] = Inr (self', [])
        \<and> initial_states self' 10 = Some ?s2"
    unfolding k1 .
  with m1 m2 ne k show ?thesis by (intro conjI)
qed

text \<open>
  The store is not first-write-wins. Two sensors with key 10 on devices 1 and 2: the
  state of device 1 arrives first and is stored under key 10; the state of device 2 is
  still waited for, arrives next, and the entry under key 10 is then the state of
  device 2, not the first arrival.
\<close>

theorem first_write_wins_counterexample:
  "InitialStateHelper_init True [sensor 1 10, sensor 2 10]
     = Inr \<lparr>wait_initial_states = {(1, 10), (2, 10)},
            entities_by_id = [(1, 10) \<mapsto> sensor 1 10, (2, 10) \<mapsto> sensor 2 10],
            initial_states = Map.empty,
            initial_states_received = Pending\<rparr>
   \<and> on_state_wrapper record_call
        (\<lparr>wait_initial_states = {(1, 10), (2, 10)},
          entities_by_id = [(1, 10) \<mapsto> sensor 1 10, (2, 10) \<mapsto> sensor 2 10],
          initial_states = Map.empty,
          initial_states_received = Pending\<rparr>, [])
        (state_of 1 10 ''first'')
     = Inr (\<lparr>wait_initial_states = {(2, 10)},
             entities_by_id = [(1, 10) \<mapsto> sensor 1 10, (2, 10) \<mapsto> sensor 2 10],
             initial_states = [10 \<mapsto> state_of 1 10 ''first''],
             initial_states_received = Pending\<rparr>, [])
   \<and> on_state_wrapper record_call
        (\<lparr>wait_initial_states = {(2, 10)},
          entities_by_id = [(1, 10) \<mapsto> sensor 1 10, (2, 10) \<mapsto> sensor 2 10],
          initial_states = [10 \<mapsto> state_of 1 10 ''first''],
          initial_states_received = Pending\<rparr>, [])
        (state_of 2 10 ''second'')
     = Inr (\<lparr>wait_initial_states = {},
             entities_by_id = [(1, 10) \<mapsto> sensor 1 10, (2, 10) \<mapsto> sensor 2 10],
             initial_states = [10 \<mapsto> state_of 2 10 ''second''],
             initial_states_received = Finished True\<rparr>, [])
   \<and> [10 \<mapsto> state_of 2 10 ''second''] (10 :: int) \<noteq> Some (state_of 1 10 ''first'')"
proof (intro conjI)
  have s: "set (stateful_ids [sensor 1 10, sensor 2 10]) = {(1, 10), (2, 10)}"
    by (simp add: stateful_ids_def sensor_def isinstance_ButtonInfo_def)
  show "InitialStateHelper_init True [sensor 1 10, sensor 2 10]
     = Inr \<lparr>wait_initial_states = {(1, 10), (2, 10)},
            entities_by_id = [(1, 10) \<mapsto> sensor 1 10, (2, 10) \<mapsto> sensor 2 10],
            initial_states = Map.empty,
            initial_states_received = Pending\<rparr>"
    unfolding init_running s by (simp add: sensor_def)
next
  have a: "{(1::int, 10::int), (2, 10)} - {(1, 10)} = {(2, 10)}" by auto
  show "on_state_wrapper record_call
        (\<lparr>wait_initial_states = {(1, 10), (2, 10)},
          entities_by_id = [(1, 10) \<mapsto> sensor 1 10, (2, 10) \<mapsto> sensor 2 10],
          initial_states = Map.empty,
          initial_states_received = Pending\<rparr>, [])
        (state_of 1 10 ''first'')
     = Inr (\<lparr>wait_initial_states = {(2, 10)},
             entities_by_id = [(1, 10) \<mapsto> sensor 1 10, (2, 10) \<mapsto> sensor 2 10],
             initial_states = [10 \<mapsto> state_of 1 10 ''first''],
             initial_states_received = Pending\<rparr>, [])"
    by (simp add: on_state_wrapper_def Let_def set_result_def future_done_def state_of_def a)
next
  show "on_state_wrapper record_call
        (\<lparr>wait_initial_states = {(2, 10)},
          entities_by_id = [(1, 10) \<mapsto> sensor 1 10, (2, 10) \<mapsto> sensor 2 10],
          initial_states = [10 \<mapsto> state_of 1 10 ''first''],
          initial_states_received = Pending\<rparr>, [])
        (state_of 2 10 ''second'')
     = Inr (\<lparr>wait_initial_states = {},
             entities_by_id = [(1, 10) \<mapsto> sensor 1 10, (2, 10) \<mapsto> sensor 2 10],
             initial_states = [10 \<mapsto> state_of 2 10 ''second''],
             initial_states_received = Finished True\<rparr>, [])"
    by (simp add: on_state_wrapper_def Let_def set_result_def future_done_def state_of_def)
next
  show "[10 \<mapsto> state_of 2 10 ''second''] (10 :: int) \<noteq> Some (state_of 1 10 ''first'')"
    by (simp add: state_of_def)
qed

text \<open>
  C3. A state whose identity is not in the waiting set when the wrapper is called (never
  tracked, or discarded before) is handed to the user callback: the callback runs once on
  the callback's state and on the very state received, and the helper comes back as it
  was, so the waiting set, the stored initial states and the future are unchanged. With
  the recording callback the record grows by exactly that state.
\<close>

theorem not_pending_is_forwarded_unchanged:
  assumes "entity_id state \<notin> wait_initial_states self"
  shows "on_state_wrapper user_callback (self, u) state = Inr (self, user_callback u state)
       \<and> on_state_wrapper record_call (self, calls) state = Inr (self, calls @ [state])"
  using assms by (simp add: wrapper_forward record_call_def)

theorem not_pending_is_forwarded_unchanged_witness:
  "entity_id (state_of 1 12 ''press'')
     \<notin> wait_initial_states \<lparr>wait_initial_states = {(1, 10)}, entities_by_id = Map.empty,
          initial_states = Map.empty, initial_states_received = Pending\<rparr>
   \<and> on_state_wrapper record_call
        (\<lparr>wait_initial_states = {(1, 10)}, entities_by_id = Map.empty,
          initial_states = Map.empty, initial_states_received = Pending\<rparr>, []) (state_of 1 12 ''press'')
      = Inr (\<lparr>wait_initial_states = {(1, 10)}, entities_by_id = Map.empty,
          initial_states = Map.empty, initial_states_received = Pending\<rparr>, [state_of 1 12 ''press''])"
proof -
  let ?h = "\<lparr>wait_initial_states = {(1, 10)}, entities_by_id = Map.empty,
          initial_states = Map.empty, initial_states_received = Pending\<rparr> :: string InitialStateHelper"
  have n: "entity_id (state_of 1 12 ''press'') \<notin> wait_initial_states ?h"
    by (simp add: state_of_def)
  from not_pending_is_forwarded_unchanged [OF n, of record_call "[]" "[]"] n
  show ?thesis by (simp add: record_call_def)
qed

text \<open>
  C4. When every entity of the inventory is a button, the constructor (in a running loop)
  returns a helper whose waiting set is empty and whose future is already resolved, and
  \<open>wait_for_initial_states\<close> on it returns normally for every deadline and whatever
  the environment would do during a suspension: it does not suspend.
\<close>

theorem no_stateful_entities_resolved_at_construction:
  assumes "\<forall>entity \<in> set entities. isinstance_ButtonInfo entity"
  shows "\<exists>h. InitialStateHelper_init True entities = Inr h
           \<and> wait_initial_states h = {}
           \<and> initial_states_received h = Finished True
           \<and> (\<forall>resolved_within timeout. wait_for_initial_states resolved_within h timeout = Inr ())"
proof -
  from assms have e: "set (stateful_ids entities) = {}"
    by (auto simp: set_stateful_ids)
  show ?thesis
    by (simp add: init_running e wait_for_initial_states_def asyncio_wait_for_def)
qed

theorem no_stateful_entities_resolved_at_construction_witness:
  "isinstance_ButtonInfo (button 1 12) \<and> isinstance_ButtonInfo (button 2 12)
   \<and> (\<exists>h. InitialStateHelper_init True [button 1 12, button 2 12] = Inr h
           \<and> wait_initial_states h = {}
           \<and> initial_states_received h = Finished True
           \<and> wait_for_initial_states (\<lambda>t. None) h None = Inr ()
           \<and> wait_for_initial_states (\<lambda>t. None) h (Some 0) = Inr ())"
proof -
  have b: "\<forall>entity \<in> set [button 1 12, button 2 12]. isinstance_ButtonInfo entity"
    by (simp add: button_def isinstance_ButtonInfo_def)
  from no_stateful_entities_resolved_at_construction [OF b] b
  show ?thesis by auto
qed

text \<open>
  C5. The waiting set only shrinks. The constructor seeds it with exactly the identities
  of the entities that are not buttons. One call of the wrapper returns normally and
  leaves the set as it was or removes the single identity of the state processed. A
  whole delivery returns normally and leaves the set it started with minus the
  identities delivered: a subset of the start, so an identity that is absent (never
  tracked, or removed before) is absent ever after and cannot be removed a second time.
\<close>

theorem pending_set_only_shrinks:
  "(\<exists>h0. InitialStateHelper_init True entities = Inr h0
        \<and> wait_initial_states h0 = entity_id ` {e \<in> set entities. \<not> isinstance_ButtonInfo e})
   \<and> (\<exists>self' u'. on_state_wrapper user_callback (self, u) state = Inr (self', u')
        \<and> (wait_initial_states self' = wait_initial_states self
            \<or> wait_initial_states self' = wait_initial_states self - {entity_id state}))
   \<and> (\<exists>self' u'. deliver user_callback (self, u) states = Inr (self', u')
        \<and> wait_initial_states self' = wait_initial_states self - set (map entity_id states)
        \<and> wait_initial_states self' \<subseteq> wait_initial_states self
        \<and> (\<forall>i. i \<notin> wait_initial_states self \<longrightarrow> i \<notin> wait_initial_states self'))"
proof (intro conjI)
  show "\<exists>h0. InitialStateHelper_init True entities = Inr h0
        \<and> wait_initial_states h0 = entity_id ` {e \<in> set entities. \<not> isinstance_ButtonInfo e}"
    by (simp add: init_running set_stateful_ids)
next
  from wrapper_total obtain self' u' where
    1: "on_state_wrapper user_callback (self, u) state = Inr (self', u')" by (metis surj_pair)
  from wrapper_waiting [OF 1] 1
  show "\<exists>self' u'. on_state_wrapper user_callback (self, u) state = Inr (self', u')
        \<and> (wait_initial_states self' = wait_initial_states self
            \<or> wait_initial_states self' = wait_initial_states self - {entity_id state})"
    by blast
next
  from deliver_total obtain self' u' where
    1: "deliver user_callback (self, u) states = Inr (self', u')" by (metis surj_pair)
  from deliver_waiting [OF 1] 1
  show "\<exists>self' u'. deliver user_callback (self, u) states = Inr (self', u')
        \<and> wait_initial_states self' = wait_initial_states self - set (map entity_id states)
        \<and> wait_initial_states self' \<subseteq> wait_initial_states self
        \<and> (\<forall>i. i \<notin> wait_initial_states self \<longrightarrow> i \<notin> wait_initial_states self')"
    by blast
qed

theorem pending_set_only_shrinks_witness:
  "(\<exists>h0. InitialStateHelper_init True [sensor 1 10, button 1 12, sensor 1 11] = Inr h0
        \<and> wait_initial_states h0 = {(1, 10), (1, 11)})
   \<and> (\<exists>self' u'. deliver record_call
          (\<lparr>wait_initial_states = {(1, 10), (1, 11)}, entities_by_id = Map.empty,
            initial_states = Map.empty, initial_states_received = Pending\<rparr>, [])
          [state_of 1 10 ''a'', state_of 1 10 ''b'', state_of 1 12 ''c''] = Inr (self', u')
        \<and> wait_initial_states self' = {(1, 11)}
        \<and> (1, 12) \<notin> wait_initial_states self')"
proof -
  let ?h = "\<lparr>wait_initial_states = {(1, 10), (1, 11)}, entities_by_id = Map.empty,
            initial_states = Map.empty, initial_states_received = Pending\<rparr> :: string InitialStateHelper"
  let ?states = "[state_of 1 10 ''a'', state_of 1 10 ''b'', state_of 1 12 ''c'']"
  note shrinks = pending_set_only_shrinks [of "[sensor 1 10, button 1 12, sensor 1 11]"
      record_call ?h "[]" "state_of 1 10 ''a''" ?states]
  have 1: "entity_id ` {e \<in> set [sensor 1 10, button 1 12, sensor 1 11]. \<not> isinstance_ButtonInfo e}
             = {(1, 10), (1, 11)}"
    unfolding set_stateful_ids [symmetric]
    by (simp add: stateful_ids_def sensor_def button_def isinstance_ButtonInfo_def)
  have 2: "wait_initial_states ?h - set (map entity_id ?states) = {(1, 11)}"
    by (auto simp: state_of_def)
  have 3: "(1, 12) \<notin> wait_initial_states ?h" by simp
  from shrinks [THEN conjunct1]
  have a: "\<exists>h0. InitialStateHelper_init True [sensor 1 10, button 1 12, sensor 1 11] = Inr h0
        \<and> wait_initial_states h0 = {(1, 10), (1, 11)}"
    unfolding 1 .
  from shrinks [THEN conjunct2, THEN conjunct2]
  obtain self' u' where d: "deliver record_call (?h, []) ?states = Inr (self', u')"
    and w: "wait_initial_states self' = wait_initial_states ?h - set (map entity_id ?states)"
    and n: "\<forall>i. i \<notin> wait_initial_states ?h \<longrightarrow> i \<notin> wait_initial_states self'"
    by blast
  from w have w': "wait_initial_states self' = {(1, 11)}"
    unfolding 2 .
  from n 3 have "(1, 12) \<notin> wait_initial_states self'"
    by blast
  with d w' have "\<exists>self' u'. deliver record_call (?h, []) ?states = Inr (self', u')
        \<and> wait_initial_states self' = {(1, 11)}
        \<and> (1, 12) \<notin> wait_initial_states self'"
    by blast
  with a show ?thesis by (rule conjI)
qed

text \<open>
  C6. Resolution is a latch. No call of the wrapper raises, in any helper state; the only
  raise in its body is \<open>set_result\<close> on a future that is done, so that branch is never
  taken. Once the future is done, any further delivery returns normally and leaves the
  future as it is, and every later wait gives the outcome it would have given before.
\<close>

theorem resolution_is_a_latch:
  "(\<exists>s'. on_state_wrapper user_callback s state = Inr s')
   \<and> (future_done (initial_states_received self) \<longrightarrow>
        (\<exists>self' u'. deliver user_callback (self, u) states = Inr (self', u')
           \<and> initial_states_received self' = initial_states_received self
           \<and> (\<forall>resolved_within timeout.
                 wait_for_initial_states resolved_within self' timeout
                   = wait_for_initial_states resolved_within self timeout)))"
proof (intro conjI impI)
  show "\<exists>s'. on_state_wrapper user_callback s state = Inr s'"
    by (rule wrapper_total)
next
  assume d: "future_done (initial_states_received self)"
  from deliver_total obtain self' u' where
    1: "deliver user_callback (self, u) states = Inr (self', u')" by (metis surj_pair)
  from deliver_future_done [OF d 1]
  have 2: "initial_states_received self' = initial_states_received self" .
  then have "\<forall>resolved_within timeout.
                 wait_for_initial_states resolved_within self' timeout
                   = wait_for_initial_states resolved_within self timeout"
    by (simp add: wait_for_initial_states_def)
  with 1 2 show "\<exists>self' u'. deliver user_callback (self, u) states = Inr (self', u')
           \<and> initial_states_received self' = initial_states_received self
           \<and> (\<forall>resolved_within timeout.
                 wait_for_initial_states resolved_within self' timeout
                   = wait_for_initial_states resolved_within self timeout)"
    by blast
qed

theorem resolution_is_a_latch_witness:
  "future_done (initial_states_received
      \<lparr>wait_initial_states = {}, entities_by_id = Map.empty,
        initial_states = [10 \<mapsto> state_of 1 10 ''a''], initial_states_received = Finished True\<rparr>)
   \<and> (\<exists>self' u'. deliver record_call
          (\<lparr>wait_initial_states = {}, entities_by_id = Map.empty,
            initial_states = [10 \<mapsto> state_of 1 10 ''a''], initial_states_received = Finished True\<rparr>, [])
          [state_of 1 10 ''b'', state_of 1 10 ''c''] = Inr (self', u')
        \<and> initial_states_received self' = Finished True
        \<and> wait_for_initial_states (\<lambda>t. None) self' None = Inr ())"
proof -
  let ?h = "\<lparr>wait_initial_states = {}, entities_by_id = Map.empty,
        initial_states = [10 \<mapsto> state_of 1 10 ''a''], initial_states_received = Finished True\<rparr>
          :: string InitialStateHelper"
  have d: "future_done (initial_states_received ?h)"
    by (simp add: future_done_def)
  have w: "wait_for_initial_states (\<lambda>t. None) ?h None = Inr ()"
    by (simp add: wait_for_initial_states_def asyncio_wait_for_def)
  from resolution_is_a_latch [of record_call "(?h, [])" "state_of 1 10 ''b''" ?h "[]"
      "[state_of 1 10 ''b'', state_of 1 10 ''c'']", THEN conjunct2, rule_format, OF d]
  obtain self' u' where
    1: "deliver record_call (?h, []) [state_of 1 10 ''b'', state_of 1 10 ''c''] = Inr (self', u')"
    and 2: "initial_states_received self' = initial_states_received ?h"
    and 3: "\<forall>resolved_within timeout.
              wait_for_initial_states resolved_within self' timeout
                = wait_for_initial_states resolved_within ?h timeout"
    by blast
  from 2 have fin: "initial_states_received self' = Finished True" by simp
  from 3 w have wt: "wait_for_initial_states (\<lambda>t. None) self' None = Inr ()" by simp
  from 1 fin wt have "\<exists>self' u'.
      deliver record_call (?h, []) [state_of 1 10 ''b'', state_of 1 10 ''c''] = Inr (self', u')
        \<and> initial_states_received self' = Finished True
        \<and> wait_for_initial_states (\<lambda>t. None) self' None = Inr ()"
    by blast
  with d show ?thesis by (rule conjI)
qed

text \<open>
  C7. The scenario with two tracked identities \<open>(1, 10)\<close> and \<open>(1, 11)\<close>: the state for
  \<open>(1, 11)\<close> is swallowed and the future stays pending; the state for \<open>(1, 10)\<close> is
  swallowed and the future is resolved by that very call; the second state for
  \<open>(1, 10)\<close> is the only one that reaches the user callback. The stored initial states
  end as key 11 with the first payload and key 10 with the second.
\<close>

theorem scenario_two_sensors:
  "\<exists>h0 h1 h2 h3.
      InitialStateHelper_init True [sensor 1 10, sensor 1 11] = Inr h0
    \<and> wait_initial_states h0 = {(1, 10), (1, 11)}
    \<and> initial_states_received h0 = Pending
    \<and> on_state_wrapper record_call (h0, []) (state_of 1 11 ''payload1'') = Inr (h1, [])
    \<and> initial_states_received h1 = Pending
    \<and> on_state_wrapper record_call (h1, []) (state_of 1 10 ''payload2'') = Inr (h2, [])
    \<and> initial_states_received h2 = Finished True
    \<and> on_state_wrapper record_call (h2, []) (state_of 1 10 ''payload3'')
         = Inr (h3, [state_of 1 10 ''payload3''])
    \<and> initial_states_received h3 = Finished True
    \<and> wait_initial_states h3 = {}
    \<and> initial_states h3 = [11 \<mapsto> state_of 1 11 ''payload1'', 10 \<mapsto> state_of 1 10 ''payload2'']
    \<and> deliver record_call (h0, [])
         [state_of 1 11 ''payload1'', state_of 1 10 ''payload2'', state_of 1 10 ''payload3'']
         = Inr (h3, [state_of 1 10 ''payload3''])"
proof -
  have s: "set (stateful_ids [sensor 1 10, sensor 1 11]) = {(1, 10), (1, 11)}"
    by (simp add: stateful_ids_def sensor_def isinstance_ButtonInfo_def)
  have a: "{(1::int, 10::int), (1, 11)} - {(1, 11)} = {(1, 10)}" by auto
  show ?thesis
    unfolding init_running s
    by (simp add: on_state_wrapper_def Let_def set_result_def future_done_def record_call_def
        state_of_def a)
qed

text \<open>
  C8. \<open>wait_for_initial_states\<close> called without a timeout behaves as with a timeout of
  5 seconds. A \<open>TimeoutError\<close> of the awaited \<open>asyncio.wait_for\<close> is the outcome of
  \<open>wait_for_initial_states\<close>: nothing catches it. In particular, for a helper reached
  from the constructor by any delivery, when identities are still waited for and the
  future is not resolved within the deadline, the wait raises \<open>TimeoutError\<close>.
\<close>

theorem default_timeout_and_timeout_propagates:
  "wait_for_initial_states resolved_within self None
     = wait_for_initial_states resolved_within self (Some 5)
   \<and> (asyncio_wait_for resolved_within (initial_states_received self) t = Inl TimeoutError
        \<longrightarrow> wait_for_initial_states resolved_within self (Some t) = Inl TimeoutError)
   \<and> (InitialStateHelper_init True entities = Inr h0
        \<and> deliver user_callback (h0, u) states = Inr (h, u')
        \<and> wait_initial_states h \<noteq> {}
        \<and> resolved_within t = None
        \<longrightarrow> wait_for_initial_states resolved_within h (Some t) = Inl TimeoutError)"
proof (intro conjI impI)
  show "wait_for_initial_states resolved_within self None
     = wait_for_initial_states resolved_within self (Some 5)"
    by (simp add: wait_for_initial_states_def)
next
  assume "asyncio_wait_for resolved_within (initial_states_received self) t = Inl TimeoutError"
  then show "wait_for_initial_states resolved_within self (Some t) = Inl TimeoutError"
    by (simp add: wait_for_initial_states_def)
next
  assume a: "InitialStateHelper_init True entities = Inr h0
        \<and> deliver user_callback (h0, u) states = Inr (h, u')
        \<and> wait_initial_states h \<noteq> {}
        \<and> resolved_within t = None"
  then have d: "deliver user_callback (h0, u) states = Inr (h, u')"
    and w: "wait_initial_states h \<noteq> {}" and r: "resolved_within t = None"
    by simp_all
  from deliver_waiting [OF d] w have w0: "wait_initial_states h0 \<noteq> {}" by blast
  from a have "h0 = \<lparr>wait_initial_states = set (stateful_ids entities),
          entities_by_id = foldl (\<lambda>d entity. d(entity_id entity \<mapsto> entity)) Map.empty entities,
          initial_states = Map.empty,
          initial_states_received =
            (if set (stateful_ids entities) = {} then Finished True else Pending)\<rparr>"
    by (simp add: init_running)
  with w0 have "initial_states_received h0 = Pending"
    by (cases "set (stateful_ids entities) = {}") simp_all
  with deliver_future_waiting [OF d w] have "initial_states_received h = Pending" by simp
  with r show "wait_for_initial_states resolved_within h (Some t) = Inl TimeoutError"
    by (simp add: wait_for_initial_states_def asyncio_wait_for_def)
qed

theorem default_timeout_and_timeout_propagates_witness:
  "\<exists>h0 :: string InitialStateHelper. InitialStateHelper_init True [sensor 2 5] = Inr h0
      \<and> deliver record_call (h0, []) [] = Inr (h0, [])
      \<and> wait_initial_states h0 = {(2, 5)}
      \<and> wait_for_initial_states (\<lambda>t. if 5 \<le> t then Some True else None) h0 (Some 4)
            = Inl TimeoutError
      \<and> wait_for_initial_states (\<lambda>t. if 5 \<le> t then Some True else None) h0 None = Inr ()
      \<and> wait_for_initial_states (\<lambda>t. if 5 \<le> t then Some True else None) h0 (Some 5) = Inr ()"
proof -
  let ?h = "\<lparr>wait_initial_states = {(2, 5)}, entities_by_id = [(2, 5) \<mapsto> sensor 2 5],
            initial_states = Map.empty, initial_states_received = Pending\<rparr> :: string InitialStateHelper"
  let ?rw = "\<lambda>t::real. if 5 \<le> t then Some True else None"
  note T = default_timeout_and_timeout_propagates [where resolved_within = ?rw and self = ?h
      and t = 4 and entities = "[sensor 2 5]" and ?h0.0 = ?h and user_callback = record_call
      and u = "[]" and states = "[]" and h = ?h and u' = "[]"]
  have i: "InitialStateHelper_init True [sensor 2 5] = Inr ?h"
    by (simp add: init_running stateful_ids_def sensor_def isinstance_ButtonInfo_def)
  have d: "deliver record_call (?h, []) [] = Inr (?h, [])" by simp
  have w: "wait_initial_states ?h \<noteq> {}" by simp
  have r: "?rw 4 = None" by simp
  from T [THEN conjunct2, THEN conjunct2, rule_format, OF conjI [OF i conjI [OF d conjI [OF w r]]]]
  have t4: "wait_for_initial_states ?rw ?h (Some 4) = Inl TimeoutError" .
  have t5: "wait_for_initial_states ?rw ?h (Some 5) = Inr ()"
    by (simp add: wait_for_initial_states_def asyncio_wait_for_def)
  from T [THEN conjunct1] t5 have tn: "wait_for_initial_states ?rw ?h None = Inr ()" by simp
  have ws: "wait_initial_states ?h = {(2, 5)}" by simp
  from i d ws t4 tn t5 show ?thesis by blast
qed

text \<open>
  C9. An inventory in which two entries \<open>a\<close> and \<open>b\<close> have the same identity, \<open>b\<close> being
  the last entry with it: the constructor (in a running loop) returns; the per-identity
  entity map holds \<open>b\<close> for that identity; the waiting set is the set of identities of the
  non-button entries, and when neither \<open>a\<close> nor \<open>b\<close> is a button their identity is in it
  once, so the set has fewer elements than the inventory has non-button entries.
\<close>

theorem duplicate_identities_accepted:
  assumes "entity_id a = entity_id b"
    and "entity_id b \<notin> set (map entity_id zs)"
  shows "\<exists>h :: 'p InitialStateHelper. InitialStateHelper_init True (xs @ a # ys @ b # zs) = Inr h
           \<and> entities_by_id h (entity_id a) = Some b
           \<and> wait_initial_states h
               = entity_id ` {e \<in> set (xs @ a # ys @ b # zs). \<not> isinstance_ButtonInfo e}
           \<and> (\<not> isinstance_ButtonInfo a \<and> \<not> isinstance_ButtonInfo b \<longrightarrow>
                 entity_id a \<in> wait_initial_states h
                 \<and> card (wait_initial_states h) < length (stateful_ids (xs @ a # ys @ b # zs)))"
proof -
  let ?es = "xs @ a # ys @ b # zs"
  let ?upd = "\<lambda>d (entity::EntityInfo). d(entity_id entity \<mapsto> entity)"
  have "foldl ?upd Map.empty ?es
          = foldl ?upd ((foldl ?upd Map.empty (xs @ a # ys))(entity_id b \<mapsto> b)) zs"
    by simp
  then have last: "foldl ?upd Map.empty ?es (entity_id a) = Some b"
    using assms by (simp add: by_id_other)
  have dup: "\<not> isinstance_ButtonInfo a \<and> \<not> isinstance_ButtonInfo b \<longrightarrow>
               entity_id a \<in> set (stateful_ids ?es)
               \<and> card (set (stateful_ids ?es)) < length (stateful_ids ?es)"
  proof
    assume nb: "\<not> isinstance_ButtonInfo a \<and> \<not> isinstance_ButtonInfo b"
    then have eq: "stateful_ids ?es
        = stateful_ids xs @ entity_id a # stateful_ids ys @ entity_id b # stateful_ids zs"
      by (simp add: stateful_ids_append stateful_ids_Cons)
    with assms(1) have "\<not> distinct (stateful_ids ?es)" by simp
    then have "card (set (stateful_ids ?es)) \<noteq> length (stateful_ids ?es)"
      using card_distinct by blast
    moreover have "card (set (stateful_ids ?es)) \<le> length (stateful_ids ?es)"
      by (rule card_length)
    ultimately have "card (set (stateful_ids ?es)) < length (stateful_ids ?es)" by simp
    moreover from eq have "entity_id a \<in> set (stateful_ids ?es)" by simp
    ultimately show "entity_id a \<in> set (stateful_ids ?es)
               \<and> card (set (stateful_ids ?es)) < length (stateful_ids ?es)" by simp
  qed
  let ?h = "\<lparr>wait_initial_states = set (stateful_ids ?es),
          entities_by_id = foldl ?upd Map.empty ?es,
          initial_states = Map.empty,
          initial_states_received =
            (if set (stateful_ids ?es) = {} then Finished True else Pending)\<rparr>
          :: 'p InitialStateHelper"
  have i: "InitialStateHelper_init True ?es = Inr ?h"
    by (rule init_running)
  from last have l: "entities_by_id ?h (entity_id a) = Some b"
    by simp
  have w: "wait_initial_states ?h = entity_id ` {e \<in> set ?es. \<not> isinstance_ButtonInfo e}"
    using set_stateful_ids [of ?es] by simp
  from dup have c: "\<not> isinstance_ButtonInfo a \<and> \<not> isinstance_ButtonInfo b \<longrightarrow>
                 entity_id a \<in> wait_initial_states ?h
                 \<and> card (wait_initial_states ?h) < length (stateful_ids ?es)"
    by simp
  from i l w c show ?thesis
    by (intro exI [of _ ?h] conjI)
qed

theorem duplicate_identities_accepted_witness:
  "\<exists>h :: string InitialStateHelper.
      InitialStateHelper_init True
        [sensor 1 10, button 1 12,
         \<lparr>device_id = 1, key = 10, object_id = ''again'', info_class = OtherInfo ''SwitchInfo''\<rparr>,
         sensor 1 11] = Inr h
      \<and> entities_by_id h (1, 10)
            = Some \<lparr>device_id = 1, key = 10, object_id = ''again'', info_class = OtherInfo ''SwitchInfo''\<rparr>
      \<and> wait_initial_states h = {(1, 10), (1, 11)}
      \<and> card (wait_initial_states h) < 3"
proof -
  let ?b = "\<lparr>device_id = 1, key = 10, object_id = ''again'', info_class = OtherInfo ''SwitchInfo''\<rparr>"
  let ?es = "[sensor 1 10, button 1 12, ?b, sensor 1 11]"
  have 1: "entity_id (sensor 1 10) = entity_id ?b"
    by (simp add: sensor_def)
  have 2: "entity_id ?b \<notin> set (map entity_id [sensor 1 11])"
    by (simp add: sensor_def)
  have nb: "\<not> isinstance_ButtonInfo (sensor 1 10) \<and> \<not> isinstance_ButtonInfo ?b"
    by (simp add: sensor_def isinstance_ButtonInfo_def)
  have e: "entity_id (sensor 1 10) = (1, 10)"
    by (simp add: sensor_def)
  have s: "entity_id ` {e \<in> set ?es. \<not> isinstance_ButtonInfo e} = {(1, 10), (1, 11)}"
    unfolding set_stateful_ids [symmetric]
    by (simp add: stateful_ids_def sensor_def button_def isinstance_ButtonInfo_def)
  have n: "length (stateful_ids ?es) = 3"
    by (simp add: stateful_ids_def sensor_def button_def isinstance_ButtonInfo_def)
  from duplicate_identities_accepted [OF 1 2, of "[]" "[button 1 12]"]
  obtain h :: "string InitialStateHelper" where
    i: "InitialStateHelper_init True ?es = Inr h"
    and l: "entities_by_id h (entity_id (sensor 1 10)) = Some ?b"
    and w: "wait_initial_states h = entity_id ` {e \<in> set ?es. \<not> isinstance_ButtonInfo e}"
    and c: "\<not> isinstance_ButtonInfo (sensor 1 10) \<and> \<not> isinstance_ButtonInfo ?b \<longrightarrow>
              entity_id (sensor 1 10) \<in> wait_initial_states h
              \<and> card (wait_initial_states h) < length (stateful_ids ?es)"
    by auto
  from l have l': "entities_by_id h (1, 10) = Some ?b" unfolding e .
  from w have w': "wait_initial_states h = {(1, 10), (1, 11)}" unfolding s .
  from c nb have c': "card (wait_initial_states h) < 3" unfolding n by blast
  from i l' w' c' show ?thesis
    by (intro exI [of _ h] conjI)
qed

text \<open>
  C10. Start from the constructed helper, deliver any states, and let one more call of
  the wrapper take the future from not done to done. Then the inventory had stateful
  identities, the waiting set is now empty, the future holds \<open>True\<close>, and for every
  stateful identity of the inventory its key has an entry in \<open>initial_states\<close>: one of
  the states received, carrying that key.
\<close>

theorem coverage_at_resolution:
  assumes "InitialStateHelper_init True entities = Inr h0"
    and "deliver user_callback (h0, u0) states = Inr (h1, u1)"
    and "on_state_wrapper user_callback (h1, u1) state = Inr (h2, u2)"
    and "\<not> future_done (initial_states_received h1)"
    and "future_done (initial_states_received h2)"
  shows "wait_initial_states h0 \<noteq> {}
       \<and> wait_initial_states h2 = {}
       \<and> initial_states_received h2 = Finished True
       \<and> (\<forall>(d, k) \<in> entity_id ` {e \<in> set entities. \<not> isinstance_ButtonInfo e}.
             \<exists>st \<in> set (states @ [state]). initial_states h2 k = Some st \<and> key st = k)"
proof -
  from assms(1) have seed: "wait_initial_states h0
      = entity_id ` {e \<in> set entities. \<not> isinstance_ButtonInfo e}"
    by (auto simp: init_running set_stateful_ids)
  have mem: "entity_id state \<in> wait_initial_states h1"
  proof (rule ccontr)
    assume "entity_id state \<notin> wait_initial_states h1"
    with assms(3) have "h2 = h1" by (simp add: wrapper_forward)
    with assms(4,5) show False by simp
  qed
  from assms(3,4,5) mem have e: "wait_initial_states h2 = {}" and f: "initial_states_received h2 = Finished True"
    by (auto simp: wrapper_swallow future_done_def split: if_splits)
  from deliver_waiting [OF assms(2)] mem have n: "wait_initial_states h0 \<noteq> {}" by blast
  from assms(2,3) have all: "deliver user_callback (h0, u0) (states @ [state]) = Inr (h2, u2)"
    by (simp add: deliver_snoc)
  have "\<forall>(d, k) \<in> wait_initial_states h0.
             \<exists>st \<in> set (states @ [state]). initial_states h2 k = Some st \<and> key st = k"
  proof (clarify)
    fix d k assume "(d, k) \<in> wait_initial_states h0"
    moreover from e have "(d, k) \<notin> wait_initial_states h2" by simp
    ultimately show "\<exists>st \<in> set (states @ [state]). initial_states h2 k = Some st \<and> key st = k"
      using deliver_coverage [OF all] by blast
  qed
  with n e f show ?thesis unfolding seed by blast
qed

theorem coverage_at_resolution_witness:
  "\<exists>h0 h1 h2 :: string InitialStateHelper.
      InitialStateHelper_init True [sensor 1 10, sensor 1 11] = Inr h0
    \<and> deliver record_call (h0, []) [state_of 1 11 ''p1''] = Inr (h1, [])
    \<and> on_state_wrapper record_call (h1, []) (state_of 1 10 ''p2'') = Inr (h2, [])
    \<and> \<not> future_done (initial_states_received h1)
    \<and> future_done (initial_states_received h2)
    \<and> wait_initial_states h2 = {}
    \<and> (\<exists>st \<in> set [state_of 1 11 ''p1'', state_of 1 10 ''p2''].
          initial_states h2 10 = Some st \<and> key st = 10)
    \<and> (\<exists>st \<in> set [state_of 1 11 ''p1'', state_of 1 10 ''p2''].
          initial_states h2 11 = Some st \<and> key st = 11)"
proof -
  let ?by_id = "foldl (\<lambda>d (entity::EntityInfo). d(entity_id entity \<mapsto> entity)) Map.empty
                  [sensor 1 10, sensor 1 11]"
  let ?h0 = "\<lparr>wait_initial_states = {(1, 10), (1, 11)}, entities_by_id = ?by_id,
             initial_states = Map.empty, initial_states_received = Pending\<rparr>
               :: string InitialStateHelper"
  let ?h1 = "\<lparr>wait_initial_states = {(1, 10)}, entities_by_id = ?by_id,
             initial_states = [11 \<mapsto> state_of 1 11 ''p1''], initial_states_received = Pending\<rparr>
               :: string InitialStateHelper"
  let ?h2 = "\<lparr>wait_initial_states = {}, entities_by_id = ?by_id,
             initial_states = [11 \<mapsto> state_of 1 11 ''p1'', 10 \<mapsto> state_of 1 10 ''p2''],
             initial_states_received = Finished True\<rparr>
               :: string InitialStateHelper"
  have s: "set (stateful_ids [sensor 1 10, sensor 1 11]) = {(1, 10), (1, 11)}"
    by (simp add: stateful_ids_def sensor_def isinstance_ButtonInfo_def)
  have i: "InitialStateHelper_init True [sensor 1 10, sensor 1 11] = Inr ?h0"
    unfolding init_running s by simp
  have a: "{(1::int, 10::int), (1, 11)} - {(1, 11)} = {(1, 10)}" by auto
  have d: "deliver record_call (?h0, []) [state_of 1 11 ''p1''] = Inr (?h1, [])"
    by (simp add: on_state_wrapper_def Let_def set_result_def future_done_def state_of_def a)
  have w: "on_state_wrapper record_call (?h1, []) (state_of 1 10 ''p2'') = Inr (?h2, [])"
    by (simp add: on_state_wrapper_def Let_def set_result_def future_done_def state_of_def)
  have p: "\<not> future_done (initial_states_received ?h1)"
    by (simp add: future_done_def)
  have f: "future_done (initial_states_received ?h2)"
    by (simp add: future_done_def)
  have m10: "(1, 10) \<in> entity_id ` {e \<in> set [sensor 1 10, sensor 1 11]. \<not> isinstance_ButtonInfo e}"
    unfolding set_stateful_ids [symmetric] s by simp
  have m11: "(1, 11) \<in> entity_id ` {e \<in> set [sensor 1 10, sensor 1 11]. \<not> isinstance_ButtonInfo e}"
    unfolding set_stateful_ids [symmetric] s by simp
  note c = coverage_at_resolution [OF i d w p f]
  from c [THEN conjunct2, THEN conjunct1] have e: "wait_initial_states ?h2 = {}" .
  note cov = c [THEN conjunct2, THEN conjunct2, THEN conjunct2]
  from bspec [OF cov m10] have c10: "\<exists>st \<in> set [state_of 1 11 ''p1'', state_of 1 10 ''p2''].
          initial_states ?h2 10 = Some st \<and> key st = 10"
    by (simp only: prod.case append.simps)
  from bspec [OF cov m11] have c11: "\<exists>st \<in> set [state_of 1 11 ''p1'', state_of 1 10 ''p2''].
          initial_states ?h2 11 = Some st \<and> key st = 11"
    by (simp only: prod.case append.simps)
  from i d w p f e c10 c11 show ?thesis
    by (intro exI [of _ ?h0] exI [of _ ?h1] exI [of _ ?h2] conjI)
qed

end
